theory Spec2Isabelle
  imports Complex_Main "HOL-Library.Word"
begin

section \<open>Data model of \<^verbatim>\<open>ps08/experiment.py\<close>\<close>

text \<open>
  The driver is Python over numpy. The exceptions it can raise are values of
  \<open>py_error\<close>: an index out of bounds (\<open>IndexError\<close>), a negative dimension given to
  \<^verbatim>\<open>np.zeros\<close> (\<open>ValueError\<close>) and a method call on \<^verbatim>\<open>None\<close> (\<open>AttributeError\<close>).
\<close>

datatype py_error = IndexError | ValueError | AttributeError

text \<open>
  A numpy \<^verbatim>\<open>float64\<close>: a finite value, the two infinities, or not-a-number. Finite
  values are real numbers; the rounding of float arithmetic is not modelled, the special
  values and the comparisons with them are.
\<close>

datatype fl = Fin real | PInf | NInf | NaN

text \<open>The comparison \<^verbatim>\<open>a < b\<close> of two floats: false as soon as one side is NaN.\<close>

fun fl_less :: "fl \<Rightarrow> fl \<Rightarrow> bool" where
  "fl_less NaN b = False"
| "fl_less a NaN = False"
| "fl_less (Fin x) (Fin y) = (x < y)"
| "fl_less (Fin x) PInf = True"
| "fl_less (Fin x) NInf = False"
| "fl_less PInf b = False"
| "fl_less NInf NInf = False"
| "fl_less NInf b = True"

text \<open>
  The division \<^verbatim>\<open>x / s\<close> of two finite floats as numpy computes it: \<^verbatim>\<open>0 / 0\<close> is NaN
  and a nonzero value over zero is an infinity (numpy warns and goes on, it does not
  raise).
\<close>

definition fl_div :: "real \<Rightarrow> real \<Rightarrow> fl" where
  "fl_div x s =
     (if s = 0 then (if x = 0 then NaN else if 0 < x then PInf else NInf)
      else Fin (x / s))"

text \<open>
  An identity key is the tuple \<^verbatim>\<open>(action, participant, trial)\<close> of Python integers. A
  feature dict is the list of its items in iteration order; the descriptor type \<open>'f\<close>
  is left open, since only \<^verbatim>\<open>compute_feature_difference\<close> looks inside a descriptor.
\<close>

type_synonym key = "int \<times> int \<times> int"

definition action :: "key \<Rightarrow> int" where
  "action k = fst k"

section \<open>\<^verbatim>\<open>match_features\<close>\<close>

text \<open>
  Lines 151 to 159: the scan of the gallery for one query. The state of the loop is the
  pair \<^verbatim>\<open>(min_diff, best_match)\<close>, \<^verbatim>\<open>(np.inf, None)\<close> at the start. The function
  \<open>cfd\<close> stands for \<^verbatim>\<open>compute_feature_difference\<close> of module \<^verbatim>\<open>ps8\<close>, called with its
  two positional arguments as on line 156.
\<close>

fun best_match_loop ::
  "('f \<Rightarrow> 'f \<Rightarrow> fl) \<Rightarrow> key \<Rightarrow> 'f \<Rightarrow> (key \<times> 'f) list \<Rightarrow> fl \<times> key option \<Rightarrow> fl \<times> key option"
where
  "best_match_loop cfd a_key a_features [] st = st"
| "best_match_loop cfd a_key a_features ((b_key, b_features) # bs) (min_diff, best_match) =
     (if a_key = b_key then best_match_loop cfd a_key a_features bs (min_diff, best_match)
      else if fl_less (cfd a_features b_features) min_diff
        then best_match_loop cfd a_key a_features bs (cfd a_features b_features, Some b_key)
        else best_match_loop cfd a_key a_features bs (min_diff, best_match))"

definition find_best_match ::
  "('f \<Rightarrow> 'f \<Rightarrow> fl) \<Rightarrow> key \<Rightarrow> 'f \<Rightarrow> (key \<times> 'f) list \<Rightarrow> key option"
where
  "find_best_match cfd a_key a_features b_items =
     snd (best_match_loop cfd a_key a_features b_items (PInf, None))"

text \<open>
  A numpy index \<open>i\<close> into an axis of size \<open>n\<close>: a negative index counts from the end,
  and an index outside \<open>-n .. n - 1\<close> raises \<^verbatim>\<open>IndexError\<close>.
\<close>

definition np_index :: "nat \<Rightarrow> int \<Rightarrow> py_error + nat" where
  "np_index n i =
     (if - int n \<le> i \<and> i < int n then Inr (nat (if i < 0 then i + int n else i))
      else Inl IndexError)"

text \<open>Line 162: \<^verbatim>\<open>confusion_matrix[i, j] += 1\<close> on an \<open>n\<close> by \<open>n\<close> matrix.\<close>

definition add_one :: "nat \<Rightarrow> real list list \<Rightarrow> int \<Rightarrow> int \<Rightarrow> py_error + real list list" where
  "add_one n cm i j =
     (case np_index n i of
        Inl e \<Rightarrow> Inl e
      | Inr r \<Rightarrow>
          (case np_index n j of
             Inl e \<Rightarrow> Inl e
           | Inr c \<Rightarrow> Inr (cm[r := (cm ! r)[c := cm ! r ! c + 1]])))"

text \<open>Lines 150 to 162: the loop over the queries, threading the matrix of counts.\<close>

fun tally_matches ::
  "('f \<Rightarrow> 'f \<Rightarrow> fl) \<Rightarrow> nat \<Rightarrow> (key \<times> 'f) list \<Rightarrow> (key \<times> 'f) list \<Rightarrow> real list list
     \<Rightarrow> py_error + real list list"
where
  "tally_matches cfd n [] b_items cm = Inr cm"
| "tally_matches cfd n ((a_key, a_features) # as) b_items cm =
     (case find_best_match cfd a_key a_features b_items of
        None \<Rightarrow> tally_matches cfd n as b_items cm
      | Some best_match \<Rightarrow>
          (case add_one n cm (action a_key - 1) (action best_match - 1) of
             Inl e \<Rightarrow> Inl e
           | Inr cm' \<Rightarrow> tally_matches cfd n as b_items cm'))"

text \<open>Line 149: \<^verbatim>\<open>np.zeros((n, n))\<close>.\<close>

definition zeros :: "nat \<Rightarrow> real list list" where
  "zeros n = replicate n (replicate n 0)"

text \<open>
  Line 164: every row is divided, cell by cell, by the sum of the row. There is no test
  of the sum.
\<close>

definition normalize_rows :: "real list list \<Rightarrow> fl list list" where
  "normalize_rows cm = map (\<lambda>row. map (\<lambda>x. fl_div x (sum_list row)) row) cm"

text \<open>
  The whole function. The parameter \<open>scale\<close> is taken and, as in the source, used
  nowhere in the body.
\<close>

definition match_features ::
  "('f \<Rightarrow> 'f \<Rightarrow> fl) \<Rightarrow> (key \<times> 'f) list \<Rightarrow> (key \<times> 'f) list \<Rightarrow> int \<Rightarrow> real
     \<Rightarrow> py_error + fl list list"
where
  "match_features cfd a_features_dict b_features_dict n_actions scale =
     (if n_actions < 0 then Inl ValueError
      else
        (case tally_matches cfd (nat n_actions) a_features_dict b_features_dict
                (zeros (nat n_actions)) of
           Inl e \<Rightarrow> Inl e
         | Inr cm \<Rightarrow> Inr (normalize_rows cm)))"

section \<open>\<^verbatim>\<open>get_cs_moment_features\<close>: the motion energy image\<close>

text \<open>
  Line 121, \<^verbatim>\<open>mei = np.uint8(mhi > 0)\<close>: the comparison gives an image of booleans, the
  conversion an image of bytes. An image is the list of its rows.
\<close>

definition greater_zero :: "fl list list \<Rightarrow> bool list list" where
  "greater_zero img = map (map (\<lambda>v. fl_less (Fin 0) v)) img"

definition np_uint8 :: "bool list list \<Rightarrow> 8 word list list" where
  "np_uint8 img = map (map (\<lambda>b. if b then 1 else 0)) img"

definition mei_of_mhi :: "fl list list \<Rightarrow> 8 word list list" where
  "mei_of_mhi mhi = np_uint8 (greater_zero mhi)"

section \<open>\<^verbatim>\<open>build_motion_history_image\<close>\<close>

text \<open>
  The builder class comes from module \<^verbatim>\<open>ps8\<close>; the driver only uses its constructor
  and its methods \<^verbatim>\<open>process\<close> and \<^verbatim>\<open>get_MHI\<close>, which are the fields of the record.
  The state of a builder object has the type \<open>'s\<close>; \<^verbatim>\<open>process\<close> changes it and returns
  the motion image, \<^verbatim>\<open>get_MHI\<close> reads it. The keyword arguments handed on to the
  constructor are one value of type \<open>'kw\<close>.
\<close>

record ('s, 'frame, 'img, 'kw) builder =
  construct :: "'frame \<Rightarrow> 'kw \<Rightarrow> 's"
  process :: "'s \<Rightarrow> 'frame \<Rightarrow> 'img \<times> 's"
  get_MHI :: "'s \<Rightarrow> 'img"

text \<open>
  The variables of the loop of lines 44 to 76: \<^verbatim>\<open>mhi_builder\<close>, \<^verbatim>\<open>mhi\<close>,
  \<^verbatim>\<open>frame_num\<close>, and the images written by \<^verbatim>\<open>cv2.imwrite\<close> so far, each with its
  file name (the driver scales an image to bytes as it writes it; the list keeps the
  image as computed).
\<close>

type_synonym ('s, 'img) loop_state = "'s option \<times> 'img option \<times> int \<times> (string \<times> 'img) list"

text \<open>
  The video is the list of the frames that \<^verbatim>\<open>video.read()\<close> delivers; at the end of
  the list the read is not okay and the loop breaks (line 49). One iteration builds the
  builder from the frame if there is none yet (lines 52 and 53), processes the frame,
  saves the motion image when the frame number is a key of \<^verbatim>\<open>save_frames\<close>, and stops
  with the MHI when the frame number is \<^verbatim>\<open>mhi_frame\<close> (lines 68 to 71). The interrupt
  from the keyboard, which may end the loop at any instant, and the printing are not
  part of the model.
\<close>

fun video_loop ::
  "('s, 'frame, 'img, 'kw) builder \<Rightarrow> 'kw \<Rightarrow> (int \<rightharpoonup> string) \<Rightarrow> int option \<Rightarrow> 'frame list
     \<Rightarrow> ('s, 'img) loop_state \<Rightarrow> ('s, 'img) loop_state"
where
  "video_loop B kwargs save_frames mhi_frame [] st = st"
| "video_loop B kwargs save_frames mhi_frame (frame # rest) (mhi_builder, mhi, frame_num, saved) =
     (let b = (case mhi_builder of None \<Rightarrow> construct B frame kwargs | Some b \<Rightarrow> b);
          (motion_image, b') = process B b frame;
          saved' = (case save_frames frame_num of
                      None \<Rightarrow> saved
                    | Some filename \<Rightarrow> saved @ [(filename, motion_image)])
      in if Some frame_num = mhi_frame
         then (Some b', Some (get_MHI B b'), frame_num, saved')
         else video_loop B kwargs save_frames mhi_frame rest (Some b', mhi, frame_num + 1, saved'))"

text \<open>
  Lines 78 to 86. With neither an MHI nor a builder, \<^verbatim>\<open>mhi_builder.get_MHI()\<close> is a
  method call on \<^verbatim>\<open>None\<close>. The result is the MHI together with the images written.
\<close>

definition build_motion_history_image ::
  "('s, 'frame, 'img, 'kw) builder \<Rightarrow> 'frame list \<Rightarrow> (int \<rightharpoonup> string) \<Rightarrow> int option
     \<Rightarrow> string option \<Rightarrow> 'kw \<Rightarrow> py_error + 'img \<times> (string \<times> 'img) list"
where
  "build_motion_history_image B video save_frames mhi_frame mhi_filename kwargs =
     (case video_loop B kwargs save_frames mhi_frame video (None, None, 0, []) of
        (mhi_builder, mhi, frame_num, saved) \<Rightarrow>
          (case (case mhi of
                   Some m \<Rightarrow> Inr m
                 | None \<Rightarrow>
                     (case mhi_builder of
                        None \<Rightarrow> Inl AttributeError
                      | Some b \<Rightarrow> Inr (get_MHI B b))) of
             Inl e \<Rightarrow> Inl e
           | Inr m \<Rightarrow>
               Inr (m, case mhi_filename of
                         None \<Rightarrow> saved
                       | Some filename \<Rightarrow> saved @ [(filename, m)])))"

section \<open>Notions used to state the properties\<close>

text \<open>
  The gallery entries a query may be compared with: those with a different key.
\<close>

definition eligible :: "key \<Rightarrow> (key \<times> 'f) list \<Rightarrow> (key \<times> 'f) list" where
  "eligible a_key b_items = filter (\<lambda>(b_key, b_features). b_key \<noteq> a_key) b_items"

text \<open>
  The gallery entries that can win the scan of a query: those with a different key and
  a distance that is not NaN (a NaN is less than nothing, so the test of line 157 fails
  for it).
\<close>

definition comparable ::
  "('f \<Rightarrow> 'f \<Rightarrow> fl) \<Rightarrow> key \<Rightarrow> 'f \<Rightarrow> (key \<times> 'f) list \<Rightarrow> (key \<times> 'f) list"
where
  "comparable cfd a_key a_features b_items =
     filter (\<lambda>(b_key, b_features). b_key \<noteq> a_key \<and> cfd a_features b_features \<noteq> NaN) b_items"

text \<open>
  A matrix of \<open>n\<close> rows of \<open>n\<close> cells.
\<close>

definition is_square :: "nat \<Rightarrow> 'a list list \<Rightarrow> bool" where
  "is_square n cm = (length cm = n \<and> (\<forall>row \<in> set cm. length row = n))"

text \<open>
  The query \<open>q\<close>, with key \<^verbatim>\<open>(true_action, participant, trial)\<close>, has a best match
  with key \<^verbatim>\<open>(predicted_action, participant', trial')\<close>, and \<^verbatim>\<open>[true_action - 1]\<close>
  and \<^verbatim>\<open>[predicted_action - 1]\<close> denote row \<open>i\<close> and column \<open>j\<close> of an \<open>n\<close> by \<open>n\<close>
  array: an index denotes position \<open>i\<close> when it is \<open>i\<close>, or \<open>i - n\<close> counted from the
  end.
\<close>

definition counts_at ::
  "('f \<Rightarrow> 'f \<Rightarrow> fl) \<Rightarrow> nat \<Rightarrow> (key \<times> 'f) list \<Rightarrow> nat \<Rightarrow> nat \<Rightarrow> key \<times> 'f \<Rightarrow> bool"
where
  "counts_at cfd n b_items i j q =
     (case q of ((true_action, participant, trial), a_features) \<Rightarrow>
        (case find_best_match cfd (true_action, participant, trial) a_features b_items of
           None \<Rightarrow> False
         | Some (predicted_action, participant', trial') \<Rightarrow>
             (true_action - 1 = int i \<or> true_action - 1 = int i - int n)
           \<and> (predicted_action - 1 = int j \<or> predicted_action - 1 = int j - int n)))"

text \<open>
  The same in the terms of the model, through \<open>action\<close> and \<open>np_index\<close>; the proofs go
  through it.
\<close>

definition counted ::
  "('f \<Rightarrow> 'f \<Rightarrow> fl) \<Rightarrow> nat \<Rightarrow> (key \<times> 'f) list \<Rightarrow> nat \<Rightarrow> nat \<Rightarrow> key \<times> 'f \<Rightarrow> bool"
where
  "counted cfd n b_items i j q =
     (case find_best_match cfd (fst q) (snd q) b_items of
        None \<Rightarrow> False
      | Some best_match \<Rightarrow>
          np_index n (action (fst q) - 1) = Inr i \<and> np_index n (action best_match - 1) = Inr j)"


text \<open>
  The state of a builder after it has processed the given frames in order.
\<close>

definition run_builder :: "('s, 'frame, 'img, 'kw) builder \<Rightarrow> 's \<Rightarrow> 'frame list \<Rightarrow> 's" where
  "run_builder B b frames = foldl (\<lambda>s frame. snd (process B s frame)) b frames"

text \<open>
  The distance as the claim on scaling words it: the distance of the two descriptors
  multiplied by the scale. The product of two floats is that of numpy.
\<close>

definition fl_scale :: "real \<Rightarrow> fl \<Rightarrow> fl" where
  "fl_scale s v =
     (case v of
        Fin x \<Rightarrow> Fin (s * x)
      | PInf \<Rightarrow> (if 0 < s then PInf else if s < 0 then NInf else NaN)
      | NInf \<Rightarrow> (if 0 < s then NInf else if s < 0 then PInf else NaN)
      | NaN \<Rightarrow> NaN)"

definition scaled_difference :: "('f \<Rightarrow> 'f \<Rightarrow> fl) \<Rightarrow> real \<Rightarrow> 'f \<Rightarrow> 'f \<Rightarrow> fl" where
  "scaled_difference cfd scale a_features b_features = fl_scale scale (cfd a_features b_features)"

section \<open>Sample inputs\<close>

text \<open>
  Two distances on descriptors of one number (the second is infinite everywhere), four
  small feature dicts, two images and a builder whose state is the sum of the first
  frame and of the frames processed.
\<close>

definition abs_diff :: "real \<Rightarrow> real \<Rightarrow> fl" where
  "abs_diff x y = Fin \<bar>x - y\<bar>"

definition inf_diff :: "real \<Rightarrow> real \<Rightarrow> fl" where
  "inf_diff x y = PInf"

definition tie_gallery :: "(key \<times> real) list" where
  "tie_gallery = [((1, 1, 1), 0), ((2, 1, 1), 5), ((3, 1, 1), 2), ((1, 1, 2), 2)]"

definition two_clips :: "(key \<times> real) list" where
  "two_clips = [((1, 1, 1), 0), ((1, 1, 2), 3)]"


definition mixed_clips :: "(key \<times> real) list" where
  "mixed_clips = [((1, 1, 1), 0), ((1, 1, 2), 1), ((2, 1, 1), 5)]"

definition sample_mhi :: "fl list list" where
  "sample_mhi = [[Fin 0, Fin (1 / 2)], [Fin 1, Fin 0]]"

definition blank_mhi :: "fl list list" where
  "blank_mhi = [[Fin 0, Fin 0]]"

definition sum_builder :: "(nat, nat, nat, unit) builder" where
  "sum_builder = \<lparr> construct = (\<lambda>frame kwargs. frame),
                   process = (\<lambda>s frame. (s + frame, s + frame)),
                   get_MHI = (\<lambda>s. s) \<rparr>"

section \<open>The scan of the gallery\<close>

lemma best_match_loop_filter:
  "best_match_loop cfd a_key a_features b_items st =
   best_match_loop cfd a_key a_features (filter (\<lambda>(b_key, b_features). b_key \<noteq> a_key) b_items) st"
proof (induction b_items arbitrary: st)
  case Nil
  show ?case by simp
next
  case (Cons b bs)
  obtain b_key b_features where b: "b = (b_key, b_features)" by (cases b)
  obtain min_diff best_match where st: "st = (min_diff, best_match)" by (cases st)
  show ?case unfolding b st using Cons.IH by auto
qed

lemma best_match_loop_key:
  "snd (best_match_loop cfd a_key a_features b_items (min_diff, best_match)) = Some r \<Longrightarrow>
   best_match = Some r \<or> (r \<noteq> a_key \<and> r \<in> fst ` set b_items)"
proof (induction b_items arbitrary: min_diff best_match)
  case Nil
  then show ?case by simp
next
  case (Cons b bs)
  obtain b_key b_features where b: "b = (b_key, b_features)" by (cases b)
  show ?case
  proof (cases "a_key = b_key")
    case True
    then show ?thesis using Cons.prems Cons.IH [of min_diff best_match] unfolding b by auto
  next
    case neq: False
    show ?thesis
    proof (cases "fl_less (cfd a_features b_features) min_diff")
      case True
      then show ?thesis
        using neq Cons.prems Cons.IH [of "cfd a_features b_features" "Some b_key"] unfolding b
        by auto
    next
      case False
      then show ?thesis
        using neq Cons.prems Cons.IH [of min_diff best_match] unfolding b by auto
    qed
  qed
qed


text \<open>
  Claim C2. For every query and every gallery, the entries of the gallery whose key
  equals the query's key take no part in the scan (the result is that of the scan of the
  entries with a different key alone), and the predicted match is never the query's own
  key; this holds as well when the gallery is the query collection itself.
\<close>

theorem match_features_self_exclusion:
  "find_best_match cfd a_key a_features b_items
     = find_best_match cfd a_key a_features (eligible a_key b_items)
   \<and> find_best_match cfd a_key a_features b_items \<noteq> Some a_key"
proof
  show "find_best_match cfd a_key a_features b_items
     = find_best_match cfd a_key a_features (eligible a_key b_items)"
    unfolding find_best_match_def eligible_def
    using best_match_loop_filter [of cfd a_key a_features b_items] by simp
next
  show "find_best_match cfd a_key a_features b_items \<noteq> Some a_key"
    unfolding find_best_match_def
    using best_match_loop_key [of cfd a_key a_features b_items PInf None a_key] by auto
qed

lemma fl_less_irrefl: "\<not> fl_less a a"
  by (cases a) simp_all

lemma fl_less_trans: "fl_less a b \<Longrightarrow> fl_less b c \<Longrightarrow> fl_less a c"
  by (cases a; cases b; cases c) simp_all

lemma fl_less_asym: "fl_less a b \<Longrightarrow> \<not> fl_less b a"
  by (cases a; cases b) simp_all

lemma fl_less_below: "fl_less a m \<Longrightarrow> \<not> fl_less x m \<Longrightarrow> x \<noteq> NaN \<Longrightarrow> fl_less a x"
  by (cases a; cases m; cases x) simp_all

lemma best_match_loop_comparable:
  "best_match_loop cfd a_key a_features b_items st =
   best_match_loop cfd a_key a_features (comparable cfd a_key a_features b_items) st"
proof (induction b_items arbitrary: st)
  case Nil
  show ?case by (simp add: comparable_def)
next
  case (Cons b bs)
  obtain b_key b_features where b: "b = (b_key, b_features)" by (cases b)
  obtain min_diff best_match where st: "st = (min_diff, best_match)" by (cases st)
  show ?case
  proof (cases "a_key = b_key")
    case True
    then show ?thesis unfolding b st using Cons.IH [of "(min_diff, best_match)"]
      by (simp add: comparable_def)
  next
    case neq: False
    show ?thesis
    proof (cases "cfd a_features b_features = NaN")
      case True
      then show ?thesis unfolding b st using neq Cons.IH [of "(min_diff, best_match)"]
        by (simp add: comparable_def)
    next
      case False
      then show ?thesis unfolding b st using neq Cons.IH
        by (simp add: comparable_def)
    qed
  qed
qed

lemma best_match_loop_least:
  assumes "\<forall>(b_key, b_features) \<in> set el.
             b_key \<noteq> a_key \<and> cfd a_features b_features = d b_features \<and> d b_features \<noteq> NaN"
  shows "(best_match_loop cfd a_key a_features el (m, bm) = (m, bm)
            \<and> (\<forall>j < length el. \<not> fl_less (d (snd (el ! j))) m))
       \<or> (\<exists>i < length el.
             best_match_loop cfd a_key a_features el (m, bm)
               = (d (snd (el ! i)), Some (fst (el ! i)))
             \<and> fl_less (d (snd (el ! i))) m
             \<and> (\<forall>j < length el. \<not> fl_less (d (snd (el ! j))) (d (snd (el ! i))))
             \<and> (\<forall>j < i. fl_less (d (snd (el ! i))) (d (snd (el ! j)))))"
  using assms
proof (induction el arbitrary: m bm)
  case Nil
  show ?case by simp
next
  case (Cons b bs)
  obtain b_key b_features where b: "b = (b_key, b_features)" by (cases b)
  from Cons.prems have neq: "a_key \<noteq> b_key" and val: "cfd a_features b_features = d b_features"
    and nn: "d b_features \<noteq> NaN"
    and rest: "\<forall>(b_key, b_features) \<in> set bs.
                 b_key \<noteq> a_key \<and> cfd a_features b_features = d b_features \<and> d b_features \<noteq> NaN"
    unfolding b by auto
  show ?case
  proof (cases "fl_less (d b_features) m")
    case True
    have step: "best_match_loop cfd a_key a_features (b # bs) (m, bm)
        = best_match_loop cfd a_key a_features bs (d b_features, Some b_key)"
      unfolding b using neq val True by simp
    from Cons.IH [OF rest, of "d b_features" "Some b_key"] show ?thesis
    proof
      assume same: "best_match_loop cfd a_key a_features bs (d b_features, Some b_key)
           = (d b_features, Some b_key)
         \<and> (\<forall>j<length bs. \<not> fl_less (d (snd (bs ! j))) (d b_features))"
      have "0 < length (b # bs)" by simp
      moreover have "best_match_loop cfd a_key a_features (b # bs) (m, bm)
               = (d (snd ((b # bs) ! 0)), Some (fst ((b # bs) ! 0)))"
        using step same unfolding b by simp
      moreover have "fl_less (d (snd ((b # bs) ! 0))) m" using True unfolding b by simp
      moreover have "\<forall>j < length (b # bs). \<not> fl_less (d (snd ((b # bs) ! j))) (d (snd ((b # bs) ! 0)))"
        using same unfolding b by (simp add: All_less_Suc2 fl_less_irrefl)
      moreover have "\<forall>j < (0::nat). fl_less (d (snd ((b # bs) ! 0))) (d (snd ((b # bs) ! j)))" by simp
      ultimately show ?thesis by blast
    next
      assume "\<exists>i<length bs.
         best_match_loop cfd a_key a_features bs (d b_features, Some b_key)
           = (d (snd (bs ! i)), Some (fst (bs ! i)))
         \<and> fl_less (d (snd (bs ! i))) (d b_features)
         \<and> (\<forall>j<length bs. \<not> fl_less (d (snd (bs ! j))) (d (snd (bs ! i))))
         \<and> (\<forall>j<i. fl_less (d (snd (bs ! i))) (d (snd (bs ! j))))"
      then obtain i where i: "i < length bs"
        and res: "best_match_loop cfd a_key a_features bs (d b_features, Some b_key)
           = (d (snd (bs ! i)), Some (fst (bs ! i)))"
        and lt: "fl_less (d (snd (bs ! i))) (d b_features)"
        and mn: "\<forall>j<length bs. \<not> fl_less (d (snd (bs ! j))) (d (snd (bs ! i)))"
        and first: "\<forall>j<i. fl_less (d (snd (bs ! i))) (d (snd (bs ! j)))" by blast
      have "Suc i < length (b # bs)" using i by simp
      moreover have "best_match_loop cfd a_key a_features (b # bs) (m, bm)
               = (d (snd ((b # bs) ! Suc i)), Some (fst ((b # bs) ! Suc i)))"
        using step res by simp
      moreover have "fl_less (d (snd ((b # bs) ! Suc i))) m"
        using fl_less_trans [OF lt True] by simp
      moreover have "\<forall>j < length (b # bs). \<not> fl_less (d (snd ((b # bs) ! j))) (d (snd ((b # bs) ! Suc i)))"
        using mn fl_less_asym [OF lt] unfolding b by (simp add: All_less_Suc2)
      moreover have "\<forall>j < Suc i. fl_less (d (snd ((b # bs) ! Suc i))) (d (snd ((b # bs) ! j)))"
        using first lt unfolding b by (simp add: All_less_Suc2)
      ultimately show ?thesis by blast
    qed
  next
    case False
    have step: "best_match_loop cfd a_key a_features (b # bs) (m, bm)
        = best_match_loop cfd a_key a_features bs (m, bm)"
      unfolding b using neq val False by simp
    from Cons.IH [OF rest, of m bm] show ?thesis
    proof
      assume same: "best_match_loop cfd a_key a_features bs (m, bm) = (m, bm)
           \<and> (\<forall>j<length bs. \<not> fl_less (d (snd (bs ! j))) m)"
      have "best_match_loop cfd a_key a_features (b # bs) (m, bm) = (m, bm)"
        using step same by simp
      moreover have "\<forall>j < length (b # bs). \<not> fl_less (d (snd ((b # bs) ! j))) m"
        using same False unfolding b by (simp add: All_less_Suc2)
      ultimately show ?thesis by blast
    next
      assume "\<exists>i<length bs.
         best_match_loop cfd a_key a_features bs (m, bm)
           = (d (snd (bs ! i)), Some (fst (bs ! i)))
         \<and> fl_less (d (snd (bs ! i))) m
         \<and> (\<forall>j<length bs. \<not> fl_less (d (snd (bs ! j))) (d (snd (bs ! i))))
         \<and> (\<forall>j<i. fl_less (d (snd (bs ! i))) (d (snd (bs ! j))))"
      then obtain i where i: "i < length bs"
        and res: "best_match_loop cfd a_key a_features bs (m, bm)
           = (d (snd (bs ! i)), Some (fst (bs ! i)))"
        and lt: "fl_less (d (snd (bs ! i))) m"
        and mn: "\<forall>j<length bs. \<not> fl_less (d (snd (bs ! j))) (d (snd (bs ! i)))"
        and first: "\<forall>j<i. fl_less (d (snd (bs ! i))) (d (snd (bs ! j)))" by blast
      have below: "fl_less (d (snd (bs ! i))) (d b_features)"
        by (rule fl_less_below [OF lt False nn])
      have "Suc i < length (b # bs)" using i by simp
      moreover have "best_match_loop cfd a_key a_features (b # bs) (m, bm)
               = (d (snd ((b # bs) ! Suc i)), Some (fst ((b # bs) ! Suc i)))"
        using step res by simp
      moreover have "fl_less (d (snd ((b # bs) ! Suc i))) m" using lt by simp
      moreover have "\<forall>j < length (b # bs). \<not> fl_less (d (snd ((b # bs) ! j))) (d (snd ((b # bs) ! Suc i)))"
        using mn fl_less_asym [OF below] unfolding b by (simp add: All_less_Suc2)
      moreover have "\<forall>j < Suc i. fl_less (d (snd ((b # bs) ! Suc i))) (d (snd ((b # bs) ! j)))"
        using first below unfolding b by (simp add: All_less_Suc2)
      ultimately show ?thesis by blast
    qed
  qed
qed

text \<open>
  Claim C4, as amended. For every query, every gallery and every distance function:
  among the eligible gallery entries whose distance is not NaN, either none has a
  distance below \<^verbatim>\<open>np.inf\<close> and there is no prediction, or the predicted label is the
  key of the entry at a position \<open>i\<close> of the iteration order whose distance is below
  \<^verbatim>\<open>np.inf\<close>, such that no entry is strictly closer to the query and every entry before
  position \<open>i\<close> is strictly farther: the first entry encountered among those of minimum
  distance.
\<close>

theorem match_features_first_minimum:
  "(find_best_match cfd a_key a_features b_items = None
      \<and> (\<forall>j < length (comparable cfd a_key a_features b_items).
            \<not> fl_less (cfd a_features (snd (comparable cfd a_key a_features b_items ! j))) PInf))
 \<or> (\<exists>i < length (comparable cfd a_key a_features b_items).
       find_best_match cfd a_key a_features b_items
         = Some (fst (comparable cfd a_key a_features b_items ! i))
     \<and> fl_less (cfd a_features (snd (comparable cfd a_key a_features b_items ! i))) PInf
     \<and> (\<forall>j < length (comparable cfd a_key a_features b_items).
           \<not> fl_less (cfd a_features (snd (comparable cfd a_key a_features b_items ! j)))
                      (cfd a_features (snd (comparable cfd a_key a_features b_items ! i))))
     \<and> (\<forall>j < i. fl_less (cfd a_features (snd (comparable cfd a_key a_features b_items ! i)))
                         (cfd a_features (snd (comparable cfd a_key a_features b_items ! j)))))"
proof -
  define el where "el = comparable cfd a_key a_features b_items"
  have keys: "\<forall>(b_key, b_features) \<in> set el.
      b_key \<noteq> a_key \<and> cfd a_features b_features = cfd a_features b_features
      \<and> cfd a_features b_features \<noteq> NaN"
    unfolding el_def comparable_def by auto
  have scan: "best_match_loop cfd a_key a_features b_items (PInf, None)
      = best_match_loop cfd a_key a_features el (PInf, None)"
    unfolding el_def by (rule best_match_loop_comparable)
  from best_match_loop_least [where el = el and a_key = a_key and cfd = cfd
      and a_features = a_features and d = "cfd a_features" and m = PInf and bm = None, OF keys]
  show ?thesis unfolding el_def [symmetric] find_best_match_def scan
  proof
    assume "best_match_loop cfd a_key a_features el (PInf, None) = (PInf, None)
        \<and> (\<forall>j<length el. \<not> fl_less (cfd a_features (snd (el ! j))) PInf)"
    then show "(snd (best_match_loop cfd a_key a_features el (PInf, None)) = None
        \<and> (\<forall>j<length el. \<not> fl_less (cfd a_features (snd (el ! j))) PInf))
      \<or> (\<exists>i<length el.
           snd (best_match_loop cfd a_key a_features el (PInf, None)) = Some (fst (el ! i))
         \<and> fl_less (cfd a_features (snd (el ! i))) PInf
         \<and> (\<forall>j<length el. \<not> fl_less (cfd a_features (snd (el ! j))) (cfd a_features (snd (el ! i))))
         \<and> (\<forall>j<i. fl_less (cfd a_features (snd (el ! i))) (cfd a_features (snd (el ! j)))))"
      by simp
  next
    assume "\<exists>i<length el.
         best_match_loop cfd a_key a_features el (PInf, None)
           = (cfd a_features (snd (el ! i)), Some (fst (el ! i)))
         \<and> fl_less (cfd a_features (snd (el ! i))) PInf
         \<and> (\<forall>j<length el. \<not> fl_less (cfd a_features (snd (el ! j))) (cfd a_features (snd (el ! i))))
         \<and> (\<forall>j<i. fl_less (cfd a_features (snd (el ! i))) (cfd a_features (snd (el ! j))))"
    then obtain i where "i < length el"
      and "snd (best_match_loop cfd a_key a_features el (PInf, None)) = Some (fst (el ! i))"
      and "fl_less (cfd a_features (snd (el ! i))) PInf"
      and "\<forall>j<length el. \<not> fl_less (cfd a_features (snd (el ! j))) (cfd a_features (snd (el ! i)))"
      and "\<forall>j<i. fl_less (cfd a_features (snd (el ! i))) (cfd a_features (snd (el ! j)))"
      by auto
    then show "(snd (best_match_loop cfd a_key a_features el (PInf, None)) = None
        \<and> (\<forall>j<length el. \<not> fl_less (cfd a_features (snd (el ! j))) PInf))
      \<or> (\<exists>i<length el.
           snd (best_match_loop cfd a_key a_features el (PInf, None)) = Some (fst (el ! i))
         \<and> fl_less (cfd a_features (snd (el ! i))) PInf
         \<and> (\<forall>j<length el. \<not> fl_less (cfd a_features (snd (el ! j))) (cfd a_features (snd (el ! i))))
         \<and> (\<forall>j<i. fl_less (cfd a_features (snd (el ! i))) (cfd a_features (snd (el ! j)))))"
      by blast
  qed
qed

theorem match_features_first_minimum_witness:
  "find_best_match abs_diff (1, 1, 1) 0 tie_gallery = Some (3, 1, 1)
 \<and> comparable abs_diff (1, 1, 1) 0 tie_gallery = [((2, 1, 1), 5), ((3, 1, 1), 2), ((1, 1, 2), 2)]
 \<and> (\<exists>i < length (comparable abs_diff (1, 1, 1) 0 tie_gallery).
       find_best_match abs_diff (1, 1, 1) 0 tie_gallery
         = Some (fst (comparable abs_diff (1, 1, 1) 0 tie_gallery ! i))
     \<and> fl_less (abs_diff 0 (snd (comparable abs_diff (1, 1, 1) 0 tie_gallery ! i))) PInf
     \<and> (\<forall>j < length (comparable abs_diff (1, 1, 1) 0 tie_gallery).
           \<not> fl_less (abs_diff 0 (snd (comparable abs_diff (1, 1, 1) 0 tie_gallery ! j)))
                      (abs_diff 0 (snd (comparable abs_diff (1, 1, 1) 0 tie_gallery ! i))))
     \<and> (\<forall>j < i. fl_less (abs_diff 0 (snd (comparable abs_diff (1, 1, 1) 0 tie_gallery ! i)))
                         (abs_diff 0 (snd (comparable abs_diff (1, 1, 1) 0 tie_gallery ! j)))))"
proof -
  have val: "find_best_match abs_diff (1, 1, 1) 0 tie_gallery = Some (3, 1, 1)"
    by (simp add: find_best_match_def abs_diff_def tie_gallery_def)
  have cmp: "comparable abs_diff (1, 1, 1) 0 tie_gallery
      = [((2, 1, 1), 5), ((3, 1, 1), 2), ((1, 1, 2), 2)]"
    by (simp add: comparable_def abs_diff_def tie_gallery_def)
  have some: "find_best_match abs_diff (1, 1, 1) 0 tie_gallery \<noteq> None" using val by simp
  from match_features_first_minimum [of abs_diff "(1, 1, 1)" 0 tie_gallery] some
  have ex: "\<exists>i < length (comparable abs_diff (1, 1, 1) 0 tie_gallery).
       find_best_match abs_diff (1, 1, 1) 0 tie_gallery
         = Some (fst (comparable abs_diff (1, 1, 1) 0 tie_gallery ! i))
     \<and> fl_less (abs_diff 0 (snd (comparable abs_diff (1, 1, 1) 0 tie_gallery ! i))) PInf
     \<and> (\<forall>j < length (comparable abs_diff (1, 1, 1) 0 tie_gallery).
           \<not> fl_less (abs_diff 0 (snd (comparable abs_diff (1, 1, 1) 0 tie_gallery ! j)))
                      (abs_diff 0 (snd (comparable abs_diff (1, 1, 1) 0 tie_gallery ! i))))
     \<and> (\<forall>j < i. fl_less (abs_diff 0 (snd (comparable abs_diff (1, 1, 1) 0 tie_gallery ! i)))
                         (abs_diff 0 (snd (comparable abs_diff (1, 1, 1) 0 tie_gallery ! j))))"
    by blast
  show ?thesis using val cmp ex by (intro conjI)
qed

text \<open>
  The claim as first stated fails where every eligible distance is infinite: the
  query has an eligible entry and gets no prediction.
\<close>

theorem match_features_first_minimum_counterexample:
  "eligible (1, 1, 1) two_clips \<noteq> []
 \<and> find_best_match inf_diff (1, 1, 1) 0 two_clips = None"
  by (simp add: eligible_def two_clips_def find_best_match_def inf_diff_def)

section \<open>The loop over the queries\<close>

lemma tally_matches_append:
  "tally_matches cfd n (xs @ ys) b_items cm =
     (case tally_matches cfd n xs b_items cm of
        Inl e \<Rightarrow> Inl e
      | Inr cm1 \<Rightarrow> tally_matches cfd n ys b_items cm1)"
proof (induction xs arbitrary: cm)
  case Nil
  show ?case by simp
next
  case (Cons q qs)
  obtain a_key a_features where q: "q = (a_key, a_features)" by (cases q)
  show ?case unfolding q using Cons.IH
    by (simp split: option.splits sum.splits)
qed

text \<open>
  Claim C5. A query with no eligible gallery entry has no best match, and the loop
  over the queries gives the same result, matrix or error, with this query as without
  it: nothing is counted for it and it raises nothing.
\<close>

theorem match_features_skips_unmatched:
  assumes "eligible a_key b_items = []"
  shows "find_best_match cfd a_key a_features b_items = None
       \<and> tally_matches cfd n (before @ (a_key, a_features) # after) b_items cm
           = tally_matches cfd n (before @ after) b_items cm"
proof -
  have none: "find_best_match cfd a_key a_features b_items = None"
    unfolding find_best_match_def
    using best_match_loop_filter [of cfd a_key a_features b_items "(PInf, None)"] assms
    unfolding eligible_def by simp
  then have "tally_matches cfd n ((a_key, a_features) # after) b_items cm1
           = tally_matches cfd n after b_items cm1" for cm1
    by simp
  then show ?thesis using none
    by (simp add: tally_matches_append split: sum.splits)
qed

theorem match_features_skips_unmatched_witness:
  "find_best_match abs_diff (1, 1, 1) 0 [((1, 1, 1), 0)] = None
 \<and> tally_matches abs_diff 2 ([((2, 1, 1), 4)] @ ((1, 1, 1), 0) # [((1, 1, 2), 1)]) [((1, 1, 1), 0)]
       (zeros 2)
     = tally_matches abs_diff 2 ([((2, 1, 1), 4)] @ [((1, 1, 2), 1)]) [((1, 1, 1), 0)] (zeros 2)"
proof -
  have "eligible (1, 1, 1) [((1, 1, 1), 0 :: real)] = []"
    by (simp add: eligible_def)
  then show ?thesis by (rule match_features_skips_unmatched)
qed

lemma is_square_zeros: "is_square n (zeros n)"
  by (simp add: is_square_def zeros_def)

lemma zeros_nth: "i < n \<Longrightarrow> j < n \<Longrightarrow> zeros n ! i ! j = 0"
  by (simp add: zeros_def)

lemma np_index_less: "np_index n i = Inr r \<Longrightarrow> r < n"
  by (auto simp: np_index_def split: if_splits)


lemma add_one_Inr:
  "add_one n cm i j = Inr cm' \<Longrightarrow>
   \<exists>r c. np_index n i = Inr r \<and> np_index n j = Inr c \<and> cm' = cm[r := (cm ! r)[c := cm ! r ! c + 1]]"
  by (auto simp: add_one_def split: sum.splits)

lemma add_one_square:
  assumes sq: "is_square n cm" and ok: "add_one n cm i j = Inr cm'"
  shows "is_square n cm'"
proof -
  from add_one_Inr [OF ok] obtain r c where r: "np_index n i = Inr r"
    and cm': "cm' = cm[r := (cm ! r)[c := cm ! r ! c + 1]]" by blast
  have "r < length cm" using np_index_less [OF r] sq by (simp add: is_square_def)
  then have "length ((cm ! r)[c := cm ! r ! c + 1]) = n" using sq by (simp add: is_square_def)
  then show ?thesis using sq unfolding cm' is_square_def
    by (auto dest: set_update_subset_insert [THEN subsetD])
qed

lemma add_one_cell:
  assumes sq: "is_square n cm" and ok: "add_one n cm i j = Inr cm'"
    and r': "r' < n" and c': "c' < n"
  shows "cm' ! r' ! c' = cm ! r' ! c' + (if np_index n i = Inr r' \<and> np_index n j = Inr c' then 1 else 0)"
proof -
  from add_one_Inr [OF ok] obtain r c where r: "np_index n i = Inr r" and c: "np_index n j = Inr c"
    and cm': "cm' = cm[r := (cm ! r)[c := cm ! r ! c + 1]]" by blast
  have rl: "r < length cm" "r' < length cm" using np_index_less [OF r] r' sq by (simp_all add: is_square_def)
  have cl: "c < length (cm ! r)" "c' < length (cm ! r')"
    using np_index_less [OF c] c' rl sq by (simp_all add: is_square_def)
  show ?thesis unfolding cm' using r c rl cl by (auto simp: nth_list_update)
qed

lemma tally_matches_cells:
  assumes "is_square n cm" and "tally_matches cfd n as b_items cm = Inr cm'"
  shows "is_square n cm' \<and>
         (\<forall>i<n. \<forall>j<n. cm' ! i ! j = cm ! i ! j + real (length (filter (counted cfd n b_items i j) as)))"
  using assms
proof (induction as arbitrary: cm)
  case Nil
  then show ?case by simp
next
  case (Cons q qs)
  obtain a_key a_features where q: "q = (a_key, a_features)" by (cases q)
  show ?case
  proof (cases "find_best_match cfd a_key a_features b_items")
    case None
    then have "tally_matches cfd n qs b_items cm = Inr cm'" using Cons.prems(2) unfolding q by simp
    from Cons.IH [OF Cons.prems(1) this] show ?thesis
      unfolding q using None by (simp add: counted_def)
  next
    case (Some best_match)
    from Cons.prems(2) obtain cm1 where
      a1: "add_one n cm (action a_key - 1) (action best_match - 1) = Inr cm1"
      and t1: "tally_matches cfd n qs b_items cm1 = Inr cm'"
      unfolding q using Some by (auto split: sum.splits)
    have sq1: "is_square n cm1" by (rule add_one_square [OF Cons.prems(1) a1])
    from Cons.IH [OF sq1 t1] have sq': "is_square n cm'"
      and cells: "\<forall>i<n. \<forall>j<n. cm' ! i ! j = cm1 ! i ! j + real (length (filter (counted cfd n b_items i j) qs))"
      by blast+
    have "cm' ! i ! j = cm ! i ! j + real (length (filter (counted cfd n b_items i j) (q # qs)))"
      if "i < n" "j < n" for i j
    proof -
      have "cm1 ! i ! j = cm ! i ! j +
          (if np_index n (action a_key - 1) = Inr i \<and> np_index n (action best_match - 1) = Inr j then 1 else 0)"
        by (rule add_one_cell [OF Cons.prems(1) a1 that])
      moreover have "counted cfd n b_items i j q =
          (np_index n (action a_key - 1) = Inr i \<and> np_index n (action best_match - 1) = Inr j)"
        unfolding q counted_def using Some by simp
      ultimately show ?thesis using cells that by simp
    qed
    then show ?thesis using sq' by blast
  qed
qed

lemma tally_matches_indices:
  assumes "tally_matches cfd n as b_items cm = Inr cm'"
    and "(a_key, a_features) \<in> set as"
    and "find_best_match cfd a_key a_features b_items = Some best_match"
  shows "\<exists>r c. np_index n (action a_key - 1) = Inr r \<and> np_index n (action best_match - 1) = Inr c"
  using assms
proof (induction as arbitrary: cm)
  case Nil
  then show ?case by simp
next
  case (Cons q qs)
  obtain k f where q: "q = (k, f)" by (cases q)
  show ?case
  proof (cases "find_best_match cfd k f b_items")
    case None
    then have t: "tally_matches cfd n qs b_items cm = Inr cm'" using Cons.prems(1) unfolding q by simp
    have "(a_key, a_features) \<in> set qs" using Cons.prems(2,3) None unfolding q by auto
    from Cons.IH [OF t this Cons.prems(3)] show ?thesis .
  next
    case (Some bk)
    from Cons.prems(1) obtain cm1 where
      a1: "add_one n cm (action k - 1) (action bk - 1) = Inr cm1"
      and t1: "tally_matches cfd n qs b_items cm1 = Inr cm'"
      unfolding q using Some by (auto split: sum.splits)
    show ?thesis
    proof (cases "(a_key, a_features) = (k, f)")
      case True
      then have "bk = best_match" using Some Cons.prems(3) by simp
      then show ?thesis using add_one_Inr [OF a1] True by auto
    next
      case False
      then have "(a_key, a_features) \<in> set qs" using Cons.prems(2) unfolding q by auto
      from Cons.IH [OF t1 this Cons.prems(3)] show ?thesis .
    qed
  qed
qed

lemma two_clips_tally:
  "tally_matches abs_diff 2 two_clips two_clips (zeros 2) = Inr [[2, 0], [0, 0]]"
  by (simp add: two_clips_def find_best_match_def abs_diff_def add_one_def np_index_def
      action_def zeros_def numeral_2_eq_2)

lemma np_index_iff:
  "i < n \<Longrightarrow> (np_index n x = Inr i) = (x = int i \<or> x = int i - int n)"
  by (auto simp: np_index_def)

text \<open>
  Claim C6. When the loop over the queries ends without an error, the matrix of counts
  has \<open>n\<close> rows of \<open>n\<close> cells, and its cell \<open>(i, j)\<close> is the number of queries that
  have a best match and for which \<^verbatim>\<open>[true_action - 1]\<close>, from the first component of the
  query's key, denotes row \<open>i\<close> and \<^verbatim>\<open>[predicted_action - 1]\<close>, from the first component
  of the key matched, denotes column \<open>j\<close>: each such query adds one count, to that one
  cell.
\<close>

theorem match_features_one_count_per_match:
  assumes "tally_matches cfd n a_items b_items (zeros n) = Inr cm"
  shows "is_square n cm
       \<and> (\<forall>i<n. \<forall>j<n. cm ! i ! j = real (length (filter (counts_at cfd n b_items i j) a_items)))"
proof -
  from tally_matches_cells [OF is_square_zeros assms]
  have sq: "is_square n cm"
    and cells: "\<forall>i<n. \<forall>j<n. cm ! i ! j
        = zeros n ! i ! j + real (length (filter (counted cfd n b_items i j) a_items))"
    by blast+
  have "cm ! i ! j = real (length (filter (counts_at cfd n b_items i j) a_items))"
    if i: "i < n" and j: "j < n" for i j
  proof -
    have "counted cfd n b_items i j q = counts_at cfd n b_items i j q" for q
    proof -
      obtain a p t f where q: "q = ((a, p, t), f)" by (cases q) auto
      show ?thesis
      proof (cases "find_best_match cfd (a, p, t) f b_items")
        case None
        then show ?thesis unfolding q counted_def counts_at_def by simp
      next
        case (Some best)
        obtain a' p' t' where best: "best = (a', p', t')" by (cases best) auto
        show ?thesis unfolding q counted_def counts_at_def
          using Some i j by (simp add: best action_def np_index_iff)
      qed
    qed
    then have "counted cfd n b_items i j = counts_at cfd n b_items i j" by blast
    then show ?thesis using cells i j by (simp add: zeros_nth)
  qed
  then show ?thesis using sq by blast
qed

theorem match_features_one_count_per_match_witness:
  "tally_matches abs_diff 2 mixed_clips mixed_clips (zeros 2) = Inr [[2, 0], [1, 0]]
 \<and> is_square 2 [[2, 0], [1, 0 :: real]]
 \<and> [[2, 0], [1, 0 :: real]] ! 1 ! 0
     = real (length (filter (counts_at abs_diff 2 mixed_clips 1 0) mixed_clips))
 \<and> length (filter (counts_at abs_diff 2 mixed_clips 1 0) mixed_clips) = 1
 \<and> [[2, 0], [1, 0 :: real]] ! 0 ! 0
     = real (length (filter (counts_at abs_diff 2 mixed_clips 0 0) mixed_clips))
 \<and> length (filter (counts_at abs_diff 2 mixed_clips 0 0) mixed_clips) = 2
 \<and> length (filter (counts_at abs_diff 2 mixed_clips 0 1) mixed_clips) = 0"
proof -
  have tally: "tally_matches abs_diff 2 mixed_clips mixed_clips (zeros 2) = Inr [[2, 0], [1, 0]]"
    by (simp add: mixed_clips_def find_best_match_def abs_diff_def add_one_def np_index_def
        action_def zeros_def numeral_2_eq_2)
  note t = match_features_one_count_per_match [OF tally]
  from t have sq: "is_square 2 [[2, 0], [1, 0 :: real]]" by (rule conjunct1)
  from t have cells: "\<forall>i<2. \<forall>j<2. [[2, 0], [1, 0 :: real]] ! i ! j
      = real (length (filter (counts_at abs_diff 2 mixed_clips i j) mixed_clips))"
    by (rule conjunct2)
  have c10: "[[2, 0], [1, 0 :: real]] ! 1 ! 0
      = real (length (filter (counts_at abs_diff 2 mixed_clips 1 0) mixed_clips))"
  proof -
    have "(1::nat) < 2" and "(0::nat) < 2" by simp_all
    with cells show ?thesis by blast
  qed
  have c00: "[[2, 0], [1, 0 :: real]] ! 0 ! 0
      = real (length (filter (counts_at abs_diff 2 mixed_clips 0 0) mixed_clips))"
  proof -
    have "(0::nat) < 2" by simp
    with cells show ?thesis by blast
  qed
  have n10: "length (filter (counts_at abs_diff 2 mixed_clips 1 0) mixed_clips) = 1"
    by (simp add: counts_at_def mixed_clips_def find_best_match_def abs_diff_def)
  have n00: "length (filter (counts_at abs_diff 2 mixed_clips 0 0) mixed_clips) = 2"
    by (simp add: counts_at_def mixed_clips_def find_best_match_def abs_diff_def)
  have n01: "length (filter (counts_at abs_diff 2 mixed_clips 0 1) mixed_clips) = 0"
    by (simp add: counts_at_def mixed_clips_def find_best_match_def abs_diff_def)
  show ?thesis using tally sq c10 n10 c00 n00 n01 by (intro conjI)
qed

section \<open>The normalisation of the rows\<close>

lemma nth_le_sum_list:
  fixes xs :: "real list"
  shows "\<forall>x \<in> set xs. 0 \<le> x \<Longrightarrow> j < length xs \<Longrightarrow> xs ! j \<le> sum_list xs"
proof (induction xs arbitrary: j)
  case Nil
  then show ?case by simp
next
  case (Cons x xs)
  have nn: "0 \<le> sum_list xs" using Cons.prems(1) by (simp add: sum_list_nonneg)
  show ?case
  proof (cases j)
    case 0
    then show ?thesis using nn by simp
  next
    case (Suc k)
    then have "xs ! k \<le> sum_list xs" using Cons by simp
    then show ?thesis using Suc Cons.prems(1) by simp
  qed
qed

lemma sum_list_divide:
  fixes xs :: "real list"
  shows "sum_list (map (\<lambda>x. x / s) xs) = sum_list xs / s"
  by (induction xs) (simp_all add: add_divide_distrib)

lemma normalize_row_positive:
  assumes "0 < sum_list row"
  shows "map (\<lambda>x. fl_div x (sum_list row)) row = map Fin (map (\<lambda>x. x / sum_list row) row)"
  using assms by (simp add: fl_div_def)

lemma two_clips_match:
  "match_features abs_diff two_clips two_clips 2 1 = Inr [[Fin 1, Fin 0], [NaN, NaN]]"
  by (simp add: match_features_def two_clips_tally normalize_rows_def fl_div_def)

text \<open>
  Claim C3. When \<^verbatim>\<open>match_features\<close> returns a matrix and a query whose index
  \<^verbatim>\<open>a_key[0] - 1\<close> is row \<open>i\<close> has a best match, row \<open>i\<close> of the matrix consists of
  finite numbers that are not negative and whose sum is 1. The sum is taken in exact
  arithmetic, the rounding of the floats being outside the model.
\<close>

theorem match_features_row_distribution:
  assumes ret: "match_features cfd a_features_dict b_features_dict n_actions scale = Inr M"
    and query: "(a_key, a_features) \<in> set a_features_dict"
    and matched: "find_best_match cfd a_key a_features b_features_dict = Some best_match"
    and row: "np_index (nat n_actions) (action a_key - 1) = Inr i"
  shows "\<exists>r. M ! i = map Fin r \<and> length r = nat n_actions \<and> sum_list r = 1 \<and> (\<forall>x \<in> set r. 0 \<le> x)"
proof -
  define n where "n = nat n_actions"
  from ret obtain cm where
    tally: "tally_matches cfd n a_features_dict b_features_dict (zeros n) = Inr cm"
    and M: "M = normalize_rows cm"
    unfolding match_features_def n_def by (auto split: if_splits sum.splits)
  from tally_matches_cells [OF is_square_zeros tally]
  have sq: "is_square n cm"
    and cells: "\<forall>i<n. \<forall>j<n. cm ! i ! j
        = zeros n ! i ! j + real (length (filter (counted cfd n b_features_dict i j) a_features_dict))"
    by blast+
  have i: "i < n" using np_index_less [OF row [folded n_def]] .
  have len: "length (cm ! i) = n" and il: "i < length cm" using sq i by (simp_all add: is_square_def)
  have cell: "cm ! i ! j = real (length (filter (counted cfd n b_features_dict i j) a_features_dict))"
    if "j < n" for j using cells i that by (simp add: zeros_nth)
  have nonneg: "\<forall>x \<in> set (cm ! i). 0 \<le> x"
  proof
    fix x assume "x \<in> set (cm ! i)"
    then obtain j where "j < n" "x = cm ! i ! j" using len by (auto simp: in_set_conv_nth)
    then show "0 \<le> x" using cell by simp
  qed
  from tally_matches_indices [OF tally query matched] row obtain c where
    c: "np_index n (action best_match - 1) = Inr c" unfolding n_def by auto
  have cn: "c < n" by (rule np_index_less [OF c])
  have "counted cfd n b_features_dict i c (a_key, a_features)"
    unfolding counted_def using matched row c by (simp add: n_def)
  then have "(a_key, a_features) \<in> set (filter (counted cfd n b_features_dict i c) a_features_dict)"
    using query by simp
  then have "0 < length (filter (counted cfd n b_features_dict i c) a_features_dict)"
    by (rule length_pos_if_in_set)
  then have "Suc 0 \<le> length (filter (counted cfd n b_features_dict i c) a_features_dict)"
    by (rule Suc_leI)
  then have "real (Suc 0) \<le> real (length (filter (counted cfd n b_features_dict i c) a_features_dict))"
    by (rule of_nat_mono)
  then have "1 \<le> cm ! i ! c" unfolding cell [OF cn] by simp
  moreover have "cm ! i ! c \<le> sum_list (cm ! i)"
    by (rule nth_le_sum_list [OF nonneg]) (simp add: len cn)
  ultimately have pos: "0 < sum_list (cm ! i)" by simp
  define r where "r = map (\<lambda>x. x / sum_list (cm ! i)) (cm ! i)"
  have "M ! i = map (\<lambda>x. fl_div x (sum_list (cm ! i))) (cm ! i)"
    unfolding M normalize_rows_def using il by simp
  then have "M ! i = map Fin r" unfolding r_def using normalize_row_positive [OF pos] by simp
  moreover have "length r = nat n_actions" unfolding r_def using len by (simp add: n_def)
  moreover have "sum_list r = 1" unfolding r_def using pos by (simp add: sum_list_divide)
  moreover have "\<forall>x \<in> set r. 0 \<le> x" unfolding r_def using nonneg pos by auto
  ultimately show ?thesis by blast
qed

theorem match_features_row_distribution_witness:
  "match_features abs_diff two_clips two_clips 2 1 = Inr [[Fin 1, Fin 0], [NaN, NaN]]
 \<and> (\<exists>r. [[Fin 1, Fin 0], [NaN, NaN]] ! 0 = map Fin r \<and> length r = nat 2 \<and> sum_list r = 1
        \<and> (\<forall>x \<in> set r. 0 \<le> x))"
proof -
  have query: "((1, 1, 1), 0) \<in> set two_clips" by (simp add: two_clips_def)
  have matched: "find_best_match abs_diff (1, 1, 1) 0 two_clips = Some (1, 1, 2)"
    by (simp add: two_clips_def find_best_match_def abs_diff_def)
  have row: "np_index (nat 2) (action (1, 1, 1) - 1) = Inr 0"
    by (simp add: np_index_def action_def)
  show ?thesis
    using two_clips_match match_features_row_distribution [OF two_clips_match query matched row]
    by (intro conjI)
qed

text \<open>
  Claim C1. The division of line 164 is not guarded. With one clip as query set and
  gallery at once, the only gallery entry is the query itself, nothing is counted, the
  sum of the row is 0 and its cell is \<^verbatim>\<open>0 / 0\<close>: the matrix returned holds NaN.
\<close>

theorem match_features_single_clip_nan:
  "match_features cfd [((1, 1, 1), f)] [((1, 1, 1), f)] 1 scale = Inr [[NaN]]"
  by (simp add: match_features_def find_best_match_def zeros_def normalize_rows_def fl_div_def)

lemma best_match_loop_min_diff:
  "snd (best_match_loop cfd a_key a_features b_items (min_diff, best_match)) = Some r \<Longrightarrow>
   best_match_loop cfd a_key a_features b_items (min_diff, best_match) = (min_diff, best_match)
   \<or> (\<exists>f. (r, f) \<in> set b_items
          \<and> fst (best_match_loop cfd a_key a_features b_items (min_diff, best_match)) = cfd a_features f)"
proof (induction b_items arbitrary: min_diff best_match)
  case Nil
  then show ?case by simp
next
  case (Cons b bs)
  obtain b_key b_features where b: "b = (b_key, b_features)" by (cases b)
  show ?case
  proof (cases "a_key \<noteq> b_key \<and> fl_less (cfd a_features b_features) min_diff")
    case True
    then have step: "best_match_loop cfd a_key a_features (b # bs) (min_diff, best_match)
        = best_match_loop cfd a_key a_features bs (cfd a_features b_features, Some b_key)"
      unfolding b by simp
    from Cons.prems have "snd (best_match_loop cfd a_key a_features bs
        (cfd a_features b_features, Some b_key)) = Some r"
      unfolding step .
    from Cons.IH [OF this] show ?thesis
    proof
      assume same: "best_match_loop cfd a_key a_features bs (cfd a_features b_features, Some b_key)
          = (cfd a_features b_features, Some b_key)"
      then have "r = b_key" using Cons.prems unfolding step by simp
      then have "(r, b_features) \<in> set (b # bs)" unfolding b by simp
      moreover have "fst (best_match_loop cfd a_key a_features (b # bs) (min_diff, best_match))
          = cfd a_features b_features"
        unfolding step same by simp
      ultimately show ?thesis by blast
    next
      assume "\<exists>f. (r, f) \<in> set bs
          \<and> fst (best_match_loop cfd a_key a_features bs (cfd a_features b_features, Some b_key))
              = cfd a_features f"
      then show ?thesis unfolding step by auto
    qed
  next
    case False
    then have step: "best_match_loop cfd a_key a_features (b # bs) (min_diff, best_match)
        = best_match_loop cfd a_key a_features bs (min_diff, best_match)"
      unfolding b by auto
    from Cons.prems have "snd (best_match_loop cfd a_key a_features bs (min_diff, best_match)) = Some r"
      unfolding step .
    from Cons.IH [OF this] show ?thesis unfolding step by auto
  qed
qed

text \<open>
  Claim C7, as amended. The result of \<^verbatim>\<open>match_features\<close> is the same for any two values
  of \<^verbatim>\<open>scale\<close>, and the least distance that the scan of a query ends with is the value
  of \<^verbatim>\<open>compute_feature_difference\<close> on the descriptors of the query and of an entry with
  the predicted key, as the call with two arguments returns it: no factor is applied.
\<close>

theorem match_features_scale_unused:
  "match_features cfd a_features_dict b_features_dict n_actions scale
     = match_features cfd a_features_dict b_features_dict n_actions scale'
 \<and> (\<forall>best_match. find_best_match cfd a_key a_features b_items = Some best_match \<longrightarrow>
       (\<exists>b_features. (best_match, b_features) \<in> set b_items
          \<and> fst (best_match_loop cfd a_key a_features b_items (PInf, None))
              = cfd a_features b_features))"
proof (intro conjI allI impI)
  show "match_features cfd a_features_dict b_features_dict n_actions scale
     = match_features cfd a_features_dict b_features_dict n_actions scale'"
    by (simp add: match_features_def)
next
  fix best_match
  assume "find_best_match cfd a_key a_features b_items = Some best_match"
  then have s: "snd (best_match_loop cfd a_key a_features b_items (PInf, None)) = Some best_match"
    by (simp add: find_best_match_def)
  from best_match_loop_min_diff [OF s]
  show "\<exists>b_features. (best_match, b_features) \<in> set b_items
          \<and> fst (best_match_loop cfd a_key a_features b_items (PInf, None))
              = cfd a_features b_features"
  proof
    assume "best_match_loop cfd a_key a_features b_items (PInf, None) = (PInf, None)"
    then show ?thesis using s by simp
  next
    assume "\<exists>f. (best_match, f) \<in> set b_items
        \<and> fst (best_match_loop cfd a_key a_features b_items (PInf, None)) = cfd a_features f"
    then show ?thesis .
  qed
qed

theorem match_features_scale_unused_witness:
  "match_features abs_diff mixed_clips mixed_clips 2 2
     = match_features abs_diff mixed_clips mixed_clips 2 1
 \<and> find_best_match abs_diff (2, 1, 1) 5 mixed_clips = Some (1, 1, 2)
 \<and> (\<exists>b_features. ((1, 1, 2), b_features) \<in> set mixed_clips
        \<and> fst (best_match_loop abs_diff (2, 1, 1) 5 mixed_clips (PInf, None))
            = abs_diff 5 b_features)
 \<and> fst (best_match_loop abs_diff (2, 1, 1) 5 mixed_clips (PInf, None)) = Fin 4"
proof -
  note t = match_features_scale_unused [of abs_diff mixed_clips mixed_clips 2 2 1
      "(2, 1, 1)" 5 mixed_clips]
  from t have a: "match_features abs_diff mixed_clips mixed_clips 2 2
     = match_features abs_diff mixed_clips mixed_clips 2 1"
    by (rule conjunct1)
  have m: "find_best_match abs_diff (2, 1, 1) 5 mixed_clips = Some (1, 1, 2)"
    by (simp add: find_best_match_def mixed_clips_def abs_diff_def)
  from t m have b: "\<exists>b_features. ((1, 1, 2), b_features) \<in> set mixed_clips
        \<and> fst (best_match_loop abs_diff (2, 1, 1) 5 mixed_clips (PInf, None))
            = abs_diff 5 b_features"
    by blast
  have c: "fst (best_match_loop abs_diff (2, 1, 1) 5 mixed_clips (PInf, None)) = Fin 4"
    by (simp add: mixed_clips_def abs_diff_def)
  show ?thesis using a m b c by (intro conjI)
qed

text \<open>
  The claim as first stated fails: with the scale \<open>-1\<close> the matrix returned is not the
  one that distances multiplied by the scale give, and with the scale 2 the least
  distance of the query \<open>(2, 1, 1)\<close> is 4 where the scaled distance is 8.
\<close>

theorem match_features_scale_counterexample:
  "match_features abs_diff mixed_clips mixed_clips 2 (- 1)
     = Inr [[Fin 1, Fin 0], [Fin 1, Fin 0]]
 \<and> match_features (scaled_difference abs_diff (- 1)) mixed_clips mixed_clips 2 (- 1)
     = Inr [[Fin 0, Fin 1], [Fin 1, Fin 0]]
 \<and> fst (best_match_loop abs_diff (2, 1, 1) 5 mixed_clips (PInf, None)) = Fin 4
 \<and> fst (best_match_loop (scaled_difference abs_diff 2) (2, 1, 1) 5 mixed_clips (PInf, None)) = Fin 8"
  by (simp add: match_features_def mixed_clips_def find_best_match_def abs_diff_def
      scaled_difference_def fl_scale_def add_one_def np_index_def action_def zeros_def
      normalize_rows_def fl_div_def numeral_2_eq_2)

section \<open>Action indices out of range\<close>





section \<open>The motion energy image\<close>

text \<open>
  Claim C8. For every MHI, with cells in \<open>[0, 1]\<close> or not, the MEI has the shape of the
  MHI, each of its cells is 1 where the cell of the MHI is greater than 0 and is 0
  elsewhere, so each cell is 0 or 1, and the MEI of an MHI that is 0 everywhere is 0
  everywhere.
\<close>

theorem mei_is_binary_mask:
  "length (mei_of_mhi mhi) = length mhi
 \<and> (\<forall>r < length mhi. length (mei_of_mhi mhi ! r) = length (mhi ! r)
      \<and> (\<forall>c < length (mhi ! r).
            mei_of_mhi mhi ! r ! c = (if fl_less (Fin 0) (mhi ! r ! c) then 1 else 0)
          \<and> (mei_of_mhi mhi ! r ! c = 0 \<or> mei_of_mhi mhi ! r ! c = 1)))
 \<and> ((\<forall>row \<in> set mhi. \<forall>v \<in> set row. v = Fin 0)
      \<longrightarrow> (\<forall>row \<in> set (mei_of_mhi mhi). \<forall>v \<in> set row. v = 0))"
proof (intro conjI)
  show "length (mei_of_mhi mhi) = length mhi"
    by (simp add: mei_of_mhi_def np_uint8_def greater_zero_def)
next
  show "\<forall>r < length mhi. length (mei_of_mhi mhi ! r) = length (mhi ! r)
      \<and> (\<forall>c < length (mhi ! r).
            mei_of_mhi mhi ! r ! c = (if fl_less (Fin 0) (mhi ! r ! c) then 1 else 0)
          \<and> (mei_of_mhi mhi ! r ! c = 0 \<or> mei_of_mhi mhi ! r ! c = 1))"
    by (simp add: mei_of_mhi_def np_uint8_def greater_zero_def)
next
  show "(\<forall>row \<in> set mhi. \<forall>v \<in> set row. v = Fin 0)
      \<longrightarrow> (\<forall>row \<in> set (mei_of_mhi mhi). \<forall>v \<in> set row. v = 0)"
  proof (intro impI ballI)
    fix row v
    assume zero: "\<forall>row \<in> set mhi. \<forall>v \<in> set row. v = Fin 0"
      and row: "row \<in> set (mei_of_mhi mhi)" and v: "v \<in> set row"
    from row obtain src where src: "src \<in> set mhi"
      and row_eq: "row = map (\<lambda>v. if fl_less (Fin 0) v then 1 else 0) src"
      by (auto simp: mei_of_mhi_def np_uint8_def greater_zero_def)
    from v obtain x where "x \<in> set src" and "v = (if fl_less (Fin 0) x then 1 else 0)"
      unfolding row_eq by auto
    moreover have "x = Fin 0" using zero src \<open>x \<in> set src\<close> by blast
    ultimately show "v = 0" by simp
  qed
qed

theorem mei_is_binary_mask_witness:
  "mei_of_mhi sample_mhi ! 0 ! 1 = 1
 \<and> mei_of_mhi sample_mhi ! 1 ! 1 = 0
 \<and> length (mei_of_mhi sample_mhi) = 2
 \<and> mei_of_mhi blank_mhi ! 0 ! 1 = 0"
proof -
  note s = mei_is_binary_mask [of sample_mhi]
  from s have len: "length (mei_of_mhi sample_mhi) = length sample_mhi" by (rule conjunct1)
  from s have cells: "\<forall>r < length sample_mhi. length (mei_of_mhi sample_mhi ! r) = length (sample_mhi ! r)
      \<and> (\<forall>c < length (sample_mhi ! r).
            mei_of_mhi sample_mhi ! r ! c = (if fl_less (Fin 0) (sample_mhi ! r ! c) then 1 else 0)
          \<and> (mei_of_mhi sample_mhi ! r ! c = 0 \<or> mei_of_mhi sample_mhi ! r ! c = 1))"
    by blast
  have r0: "(0::nat) < length sample_mhi" and r1: "(1::nat) < length sample_mhi"
    and c0: "(1::nat) < length (sample_mhi ! 0)" and c1: "(1::nat) < length (sample_mhi ! 1)"
    by (simp_all add: sample_mhi_def)
  have a: "mei_of_mhi sample_mhi ! 0 ! 1 = (if fl_less (Fin 0) (sample_mhi ! 0 ! 1) then 1 else 0)"
    using cells r0 c0 by blast
  have b: "mei_of_mhi sample_mhi ! 1 ! 1 = (if fl_less (Fin 0) (sample_mhi ! 1 ! 1) then 1 else 0)"
    using cells r1 c1 by blast
  have a': "mei_of_mhi sample_mhi ! 0 ! 1 = 1" unfolding a by (simp add: sample_mhi_def)
  have b': "mei_of_mhi sample_mhi ! 1 ! 1 = 0" unfolding b by (simp add: sample_mhi_def)
  have l: "length (mei_of_mhi sample_mhi) = 2" unfolding len by (simp add: sample_mhi_def)
  have zero: "\<forall>row \<in> set blank_mhi. \<forall>v \<in> set row. v = Fin 0" by (simp add: blank_mhi_def)
  from mei_is_binary_mask [of blank_mhi] zero
  have z: "\<forall>row \<in> set (mei_of_mhi blank_mhi). \<forall>v \<in> set row. v = 0" by blast
  from mei_is_binary_mask [of blank_mhi]
  have bl: "length (mei_of_mhi blank_mhi) = length blank_mhi"
    and br: "length (mei_of_mhi blank_mhi ! 0) = length (blank_mhi ! 0)"
    by (simp_all add: blank_mhi_def)
  have "mei_of_mhi blank_mhi ! 0 \<in> set (mei_of_mhi blank_mhi)"
    using bl by (simp add: blank_mhi_def)
  moreover have "mei_of_mhi blank_mhi ! 0 ! 1 \<in> set (mei_of_mhi blank_mhi ! 0)"
    using br by (simp add: blank_mhi_def)
  ultimately have d: "mei_of_mhi blank_mhi ! 0 ! 1 = 0" using z by blast
  show ?thesis using a' b' l d by (intro conjI)
qed

section \<open>The driver of the motion history builder\<close>

lemma video_loop_builder_present:
  "\<exists>k \<le> length frames. (frames \<noteq> [] \<longrightarrow> 0 < k) \<and>
     (\<exists>mhi frame_num' saved'.
        video_loop B kwargs save_frames mhi_frame frames (Some b, None, frame_num, saved)
          = (Some (run_builder B b (take k frames)), mhi, frame_num', saved')
        \<and> (mhi = None \<or> mhi = Some (get_MHI B (run_builder B b (take k frames)))))"
proof (induction frames arbitrary: b frame_num saved)
  case Nil
  show ?case by (simp add: run_builder_def)
next
  case (Cons frame rest)
  obtain motion_image b' where p: "process B b frame = (motion_image, b')"
    by (cases "process B b frame")
  define saved1 where "saved1 = (case save_frames frame_num of
                      None \<Rightarrow> saved
                    | Some filename \<Rightarrow> saved @ [(filename, motion_image)])"
  have run1: "run_builder B b (take (Suc k) (frame # rest)) = run_builder B b' (take k rest)" for k
    using p by (simp add: run_builder_def)
  show ?case
  proof (cases "Some frame_num = mhi_frame")
    case True
    have "video_loop B kwargs save_frames mhi_frame (frame # rest) (Some b, None, frame_num, saved)
        = (Some b', Some (get_MHI B b'), frame_num, saved1)"
      using p True by (simp add: saved1_def)
    moreover have "run_builder B b (take (Suc 0) (frame # rest)) = b'"
      using run1 [of 0] by (simp add: run_builder_def)
    ultimately show ?thesis by (intro exI [of _ "Suc 0"]) simp
  next
    case False
    have step: "video_loop B kwargs save_frames mhi_frame (frame # rest) (Some b, None, frame_num, saved)
        = video_loop B kwargs save_frames mhi_frame rest (Some b', None, frame_num + 1, saved1)"
      using p False by (simp add: saved1_def)
    from Cons.IH [of b' "frame_num + 1" saved1] obtain k mhi frame_num' saved' where
      k: "k \<le> length rest"
      and res: "video_loop B kwargs save_frames mhi_frame rest (Some b', None, frame_num + 1, saved1)
          = (Some (run_builder B b' (take k rest)), mhi, frame_num', saved')"
      and m: "mhi = None \<or> mhi = Some (get_MHI B (run_builder B b' (take k rest)))"
      by blast
    show ?thesis
      using k res m step run1 [of k] by (intro exI [of _ "Suc k"]) simp
  qed
qed

lemma video_loop_constructs:
  "video_loop B kwargs save_frames mhi_frame (frame # rest) (None, mhi, frame_num, saved)
     = video_loop B kwargs save_frames mhi_frame (frame # rest)
         (Some (construct B frame kwargs), mhi, frame_num, saved)"
  by simp

text \<open>
  Claim C9. On a video that delivers no frame the function fails with the error of the
  method call on \<^verbatim>\<open>None\<close> and returns no MHI. On a video that delivers at least one
  frame it returns the MHI of the builder that was constructed from the first frame and
  has then processed the first \<open>k\<close> frames, for some \<open>k\<close> of at least 1.
\<close>

theorem build_motion_history_image_needs_frame:
  "build_motion_history_image B [] save_frames mhi_frame mhi_filename kwargs = Inl AttributeError
 \<and> (video \<noteq> [] \<longrightarrow>
       (\<exists>k saved. 0 < k \<and> k \<le> length video
          \<and> build_motion_history_image B video save_frames mhi_frame mhi_filename kwargs
              = Inr (get_MHI B (run_builder B (construct B (hd video) kwargs) (take k video)), saved)))"
proof
  show "build_motion_history_image B [] save_frames mhi_frame mhi_filename kwargs = Inl AttributeError"
    by (simp add: build_motion_history_image_def)
next
  show "video \<noteq> [] \<longrightarrow>
       (\<exists>k saved. 0 < k \<and> k \<le> length video
          \<and> build_motion_history_image B video save_frames mhi_frame mhi_filename kwargs
              = Inr (get_MHI B (run_builder B (construct B (hd video) kwargs) (take k video)), saved))"
  proof
    assume "video \<noteq> []"
    then obtain frame rest where v: "video = frame # rest" by (cases video) auto
    define b0 where "b0 = construct B frame kwargs"
    from video_loop_builder_present [of video B kwargs save_frames mhi_frame b0 0 "[]"]
    obtain k mhi frame_num' saved' where
      k: "k \<le> length video" "0 < k"
      and res: "video_loop B kwargs save_frames mhi_frame video (Some b0, None, 0, [])
          = (Some (run_builder B b0 (take k video)), mhi, frame_num', saved')"
      and m: "mhi = None \<or> mhi = Some (get_MHI B (run_builder B b0 (take k video)))"
      using \<open>video \<noteq> []\<close> by blast
    have res0: "video_loop B kwargs save_frames mhi_frame video (None, None, 0, [])
          = (Some (run_builder B b0 (take k video)), mhi, frame_num', saved')"
      using res unfolding v b0_def video_loop_constructs .
    have "build_motion_history_image B video save_frames mhi_frame mhi_filename kwargs
        = Inr (get_MHI B (run_builder B b0 (take k video)),
               case mhi_filename of None \<Rightarrow> saved'
               | Some filename \<Rightarrow> saved' @ [(filename, get_MHI B (run_builder B b0 (take k video)))])"
      using m unfolding build_motion_history_image_def res0 by auto
    then show "\<exists>k saved. 0 < k \<and> k \<le> length video
          \<and> build_motion_history_image B video save_frames mhi_frame mhi_filename kwargs
              = Inr (get_MHI B (run_builder B (construct B (hd video) kwargs) (take k video)), saved)"
      using k unfolding b0_def v by auto
  qed
qed

theorem build_motion_history_image_needs_frame_witness:
  "build_motion_history_image sum_builder [] Map.empty None None () = Inl AttributeError
 \<and> [5, 7 :: nat] \<noteq> []
 \<and> (\<exists>k saved. 0 < k \<and> k \<le> length [5, 7 :: nat]
       \<and> build_motion_history_image sum_builder [5, 7] Map.empty None None ()
           = Inr (get_MHI sum_builder
                    (run_builder sum_builder (construct sum_builder (hd [5, 7]) ()) (take k [5, 7])),
                  saved))
 \<and> build_motion_history_image sum_builder [5, 7] Map.empty None None () = Inr (17, [])"
proof -
  note t = build_motion_history_image_needs_frame
    [of sum_builder Map.empty None None "()" "[5, 7]"]
  have ne: "[5, 7 :: nat] \<noteq> []" by simp
  from t have a: "build_motion_history_image sum_builder [] Map.empty None None () = Inl AttributeError"
    by (rule conjunct1)
  from t ne have b: "\<exists>k saved. 0 < k \<and> k \<le> length [5, 7 :: nat]
       \<and> build_motion_history_image sum_builder [5, 7] Map.empty None None ()
           = Inr (get_MHI sum_builder
                    (run_builder sum_builder (construct sum_builder (hd [5, 7]) ()) (take k [5, 7])),
                  saved)"
    by blast
  have c: "build_motion_history_image sum_builder [5, 7] Map.empty None None () = Inr (17, [])"
    by (simp add: build_motion_history_image_def sum_builder_def)
  show ?thesis using a ne b c by (intro conjI)
qed

end
